theory Spec2Isabelle
  imports Complex_Main "HOL-Library.Multiset"
begin

section \<open>Character-level n-gram language model: embedding of the notebook code\<close>

text \<open>
  The notebook \<^verbatim>\<open>nbs/n-gram music reviews.ipynb\<close> defines \<^verbatim>\<open>normalize\<close>,
  \<^verbatim>\<open>train_char_lm\<close>, \<^verbatim>\<open>generate_letter\<close>, \<^verbatim>\<open>generate_text\<close> and
  \<^verbatim>\<open>perplexity\<close>. Modelling decisions:
  \<^item> a Python \<^verbatim>\<open>str\<close> is a \<open>string\<close> (list of characters; nothing depends on the
    alphabet beyond the pad character \<open>~\<close>), the order \<open>n\<close>, the requested length and
    every count are natural numbers;
  \<^item> a Python \<^verbatim>\<open>dict\<close>, \<^verbatim>\<open>Counter\<close> or \<^verbatim>\<open>defaultdict\<close> is an association list in
    insertion order: assigning to an existing key keeps its position, a new key is
    appended (the order matters for the sampling loop of \<^verbatim>\<open>generate_letter\<close>);
  \<^item> a Python \<^verbatim>\<open>float\<close> is a real number: the arithmetic is exact, rounding and
    overflow are not modelled;
  \<^item> every exception the code can raise is a value of \<open>error\<close>, results are
    \<open>error + 'a\<close>;
  \<^item> \<^verbatim>\<open>random()\<close> is an injected sequence \<open>rng :: nat \<Rightarrow> real\<close>, the i-th call
    returning \<open>rng i\<close>; the timing and printing of \<^verbatim>\<open>train_char_lm\<close> do not
    influence its result and are left out.
\<close>

subsection \<open>Exceptions and dictionaries\<close>

datatype error = KeyError | TypeError | ValueError | ZeroDivisionError

type_synonym ('k, 'v) dict = "('k \<times> 'v) list"

text \<open>\<^verbatim>\<open>d[k] = f(d[k])\<close> on a dictionary whose missing keys read as \<open>dflt\<close>
  (\<^verbatim>\<open>defaultdict\<close>, \<^verbatim>\<open>Counter\<close>).\<close>

fun dict_upd :: "'k \<Rightarrow> ('v \<Rightarrow> 'v) \<Rightarrow> 'v \<Rightarrow> ('k, 'v) dict \<Rightarrow> ('k, 'v) dict" where
  "dict_upd k f dflt [] = [(k, f dflt)]"
| "dict_upd k f dflt ((k', v) # kvs) =
     (if k = k' then (k', f v) # kvs else (k', v) # dict_upd k f dflt kvs)"

type_synonym counter = "(char, nat) dict"
type_synonym dist = "(char, real) dict"
type_synonym counts = "(string, counter) dict"
type_synonym model = "(string, dist) dict"

subsection \<open>Training\<close>

text \<open>\<^verbatim>\<open>s = sum(counter.values()); return {c: cnt / s for c, cnt in counter.items()}\<close>.
  The division raises when \<open>s\<close> is zero and there is an item to divide.\<close>

definition normalize_counter :: "counter \<Rightarrow> error + dist" where
  "normalize_counter counter =
     (let s = sum_list (map snd counter)
      in if counter \<noteq> [] \<and> s = 0 then Inl ZeroDivisionError
         else Inr (map (\<lambda>(c, cnt). (c, real cnt / real s)) counter))"

text \<open>\<^verbatim>\<open>{hist: normalize(chars) for hist, chars in lm.items()}\<close>\<close>

fun normalize_all :: "counts \<Rightarrow> error + model" where
  "normalize_all [] = Inr []"
| "normalize_all ((hist, chars) # rest) =
     (case normalize_counter chars of
        Inl e \<Rightarrow> Inl e
      | Inr d \<Rightarrow> (case normalize_all rest of
                    Inl e \<Rightarrow> Inl e
                  | Inr m \<Rightarrow> Inr ((hist, d) # m)))"

text \<open>\<^verbatim>\<open>pad = '~' * n\<close> and \<^verbatim>\<open>data = ''.join([pad + text for text in texts])\<close>\<close>

definition pad :: "nat \<Rightarrow> string" where
  "pad n = replicate n CHR ''~''"

definition padded :: "string list \<Rightarrow> nat \<Rightarrow> string" where
  "padded texts n = concat (map (\<lambda>text. pad n @ text) texts)"

text \<open>The body of the counting loop: \<^verbatim>\<open>history, char = data[i:i+n], data[i+n]\<close> and
  \<^verbatim>\<open>lm[history][char] += 1\<close> on a \<^verbatim>\<open>defaultdict(Counter)\<close>.\<close>

definition count_step :: "string \<Rightarrow> nat \<Rightarrow> nat \<Rightarrow> counts \<Rightarrow> counts" where
  "count_step data n i lm =
     (let history = take n (drop i data); char = data ! (i + n)
      in dict_upd history (dict_upd char Suc 0) [] lm)"

definition count_loop :: "string \<Rightarrow> nat \<Rightarrow> counts" where
  "count_loop data n = fold (count_step data n) [0..<length data - n] []"

definition train_char_lm :: "string list \<Rightarrow> nat \<Rightarrow> error + model" where
  "train_char_lm texts n = normalize_all (count_loop (padded texts n) n)"

subsection \<open>Generation\<close>

text \<open>The slice \<^verbatim>\<open>history[-n:]\<close>: the last \<open>n\<close> characters, and the whole string when
  \<open>n\<close> is zero.\<close>

definition last_n :: "nat \<Rightarrow> string \<Rightarrow> string" where
  "last_n n s = (if n = 0 then s else drop (length s - n) s)"

text \<open>The sampling loop of \<^verbatim>\<open>generate_letter\<close>; falling out of the loop returns
  \<^verbatim>\<open>None\<close>.\<close>

fun sample :: "dist \<Rightarrow> real \<Rightarrow> char option" where
  "sample [] x = None"
| "sample ((c, v) # rest) x = (if x - v \<le> 0 then Some c else sample rest (x - v))"

definition generate_letter :: "model \<Rightarrow> string \<Rightarrow> nat \<Rightarrow> real \<Rightarrow> error + char option" where
  "generate_letter lm history n x =
     (case map_of lm (last_n n history) of
        None \<Rightarrow> Inl KeyError
      | Some dst \<Rightarrow> Inr (sample dst x))"

text \<open>The loop of \<^verbatim>\<open>generate_text\<close>, started at draw \<open>i\<close> with \<open>k\<close> iterations to go.
  \<^verbatim>\<open>history[-n:] + c\<close> raises a \<^verbatim>\<open>TypeError\<close> when \<open>c\<close> is \<^verbatim>\<open>None\<close>.\<close>

fun generate_loop ::
  "model \<Rightarrow> nat \<Rightarrow> (nat \<Rightarrow> real) \<Rightarrow> nat \<Rightarrow> nat \<Rightarrow> string \<Rightarrow> string \<Rightarrow> error + string" where
  "generate_loop lm n rng i 0 history out = Inr out"
| "generate_loop lm n rng i (Suc k) history out =
     (case generate_letter lm history n (rng i) of
        Inl e \<Rightarrow> Inl e
      | Inr None \<Rightarrow> Inl TypeError
      | Inr (Some c) \<Rightarrow> generate_loop lm n rng (Suc i) k (last_n n history @ [c]) (out @ [c]))"

definition generate_text :: "model \<Rightarrow> nat \<Rightarrow> nat \<Rightarrow> (nat \<Rightarrow> real) \<Rightarrow> error + string" where
  "generate_text lm n num_generate rng = generate_loop lm n rng 0 num_generate (pad n) []"

subsection \<open>Perplexity\<close>

text \<open>\<^verbatim>\<open>math.log\<close> raises a \<^verbatim>\<open>ValueError\<close> outside the positive reals.\<close>

definition math_log :: "real \<Rightarrow> error + real" where
  "math_log x = (if x \<le> 0 then Inl ValueError else Inr (ln x))"

text \<open>The state of the scan is \<^verbatim>\<open>(logsum, unk_hist)\<close>; one iteration of the first
  loop of \<^verbatim>\<open>perplexity\<close>:\<close>

definition scan_step ::
  "model \<Rightarrow> string \<Rightarrow> nat \<Rightarrow> nat \<Rightarrow> real \<times> (string, nat) dict \<Rightarrow> error + real \<times> (string, nat) dict" where
  "scan_step lm data n i st =
     (let history = take n (drop i data); char = data ! (i + n)
      in case map_of lm history of
           None \<Rightarrow> Inr st
         | Some dst \<Rightarrow>
             (case map_of dst char of
                Some p \<Rightarrow> (case math_log p of
                             Inl e \<Rightarrow> Inl e
                           | Inr l \<Rightarrow> Inr (fst st + l, snd st))
              | None \<Rightarrow> Inr (fst st, dict_upd history Suc 0 (snd st))))"

fun scan_loop ::
  "model \<Rightarrow> string \<Rightarrow> nat \<Rightarrow> nat list \<Rightarrow> real \<times> (string, nat) dict \<Rightarrow> error + real \<times> (string, nat) dict" where
  "scan_loop lm data n [] st = Inr st"
| "scan_loop lm data n (i # is) st =
     (case scan_step lm data n i st of
        Inl e \<Rightarrow> Inl e
      | Inr st' \<Rightarrow> scan_loop lm data n is st')"

text \<open>The second loop, over the keys of \<^verbatim>\<open>unk_hist\<close>:
  \<^verbatim>\<open>s = sum(lm[h].values()) + 1; logsum += math.log(1 / s)\<close>\<close>

fun unk_loop :: "model \<Rightarrow> string list \<Rightarrow> real \<Rightarrow> error + real" where
  "unk_loop lm [] logsum = Inr logsum"
| "unk_loop lm (h # hs) logsum =
     (case map_of lm h of
        None \<Rightarrow> Inl KeyError
      | Some dst \<Rightarrow>
          (let s = sum_list (map snd dst) + 1
           in if s = 0 then Inl ZeroDivisionError
              else (case math_log (1 / s) of
                      Inl e \<Rightarrow> Inl e
                    | Inr l \<Rightarrow> unk_loop lm hs (logsum + l))))"

text \<open>The value of \<^verbatim>\<open>logsum\<close> when the \<^verbatim>\<open>return\<close> statement is reached.\<close>

definition perplexity_logsum :: "model \<Rightarrow> string list \<Rightarrow> nat \<Rightarrow> error + real" where
  "perplexity_logsum lm test_data n =
     (let data = padded test_data n
      in case scan_loop lm data n [0..<length data - n] (0, []) of
           Inl e \<Rightarrow> Inl e
         | Inr (logsum, unk_hist) \<Rightarrow> unk_loop lm (map fst unk_hist) logsum)"

text \<open>\<^verbatim>\<open>return math.exp(-1 * logsum / len(data))\<close>\<close>

definition perplexity :: "model \<Rightarrow> string list \<Rightarrow> nat \<Rightarrow> error + real" where
  "perplexity lm test_data n =
     (case perplexity_logsum lm test_data n of
        Inl e \<Rightarrow> Inl e
      | Inr logsum \<Rightarrow>
          if length (padded test_data n) = 0 then Inl ZeroDivisionError
          else Inr (exp (- 1 * logsum / real (length (padded test_data n)))))"

subsection \<open>Reading dictionaries\<close>

text \<open>\<open>entry lm h c\<close> is \<^verbatim>\<open>lm[h][c]\<close> when both keys are present.\<close>

definition entry :: "('k, ('c, 'v) dict) dict \<Rightarrow> 'k \<Rightarrow> 'c \<Rightarrow> 'v option" where
  "entry lm h c = (case map_of lm h of None \<Rightarrow> None | Some d \<Rightarrow> map_of d c)"

text \<open>\<^verbatim>\<open>sum(lm[h].values())\<close>, and zero for a missing key.\<close>

definition dict_total :: "('k, ('c, 'v::comm_monoid_add) dict) dict \<Rightarrow> 'k \<Rightarrow> 'v" where
  "dict_total lm h = (case map_of lm h of None \<Rightarrow> 0 | Some d \<Rightarrow> sum_list (map snd d))"

text \<open>Two models are equal as Python dictionaries (\<^verbatim>\<open>==\<close> ignores insertion order) when
  they have the same keys and the same entries.\<close>

definition same_model :: "model \<Rightarrow> model \<Rightarrow> bool" where
  "same_model a b \<longleftrightarrow>
     (\<forall>h. (map_of a h = None) = (map_of b h = None)) \<and> (\<forall>h c. entry a h c = entry b h c)"

subsection \<open>The sliding windows of the specification\<close>

text \<open>The pairs \<open>(S[i:i+n], S[i+n])\<close> for the positions \<open>i\<close> from 0 to \<open>len(S)-n-1\<close>.\<close>

definition windows :: "string \<Rightarrow> nat \<Rightarrow> (string \<times> char) list" where
  "windows S n = map (\<lambda>i. (take n (drop i S), S ! (i + n))) [0..<length S - n]"

text \<open>The number of positions at which \<open>(h, c)\<close> occurs, and at which the history \<open>h\<close>
  occurs.\<close>

definition occurrences :: "string \<Rightarrow> nat \<Rightarrow> string \<Rightarrow> char \<Rightarrow> nat" where
  "occurrences S n h c =
     length (filter (\<lambda>i. take n (drop i S) = h \<and> S ! (i + n) = c) [0..<length S - n])"

definition history_total :: "string \<Rightarrow> nat \<Rightarrow> string \<Rightarrow> nat" where
  "history_total S n h = length (filter (\<lambda>i. take n (drop i S) = h) [0..<length S - n])"

subsection \<open>Auxiliary notions for the proofs\<close>

text \<open>One iteration of the loop, as a function of the window it reads.\<close>

definition bump :: "string \<times> char \<Rightarrow> counts \<Rightarrow> counts" where
  "bump w lm = dict_upd (fst w) (dict_upd (snd w) Suc 0) [] lm"

definition cnt :: "counts \<Rightarrow> string \<Rightarrow> char \<Rightarrow> nat" where
  "cnt lm h c = (case entry lm h c of None \<Rightarrow> 0 | Some k \<Rightarrow> k)"

text \<open>The invariant of the loop: a stored count is never zero and a stored counter is
  never empty, and the keys of every dictionary are distinct.\<close>

definition counts_ok :: "counts \<Rightarrow> bool" where
  "counts_ok lm \<longleftrightarrow>
     distinct (map fst lm) \<and>
     (\<forall>h d. map_of lm h = Some d \<longrightarrow>
        d \<noteq> [] \<and> distinct (map fst d) \<and> (\<forall>c k. map_of d c = Some k \<longrightarrow> 0 < k))"

text \<open>The distribution that \<open>normalize_counter\<close> returns when the sum of the counts is positive.\<close>

definition norm_dist :: "counter \<Rightarrow> dist" where
  "norm_dist d = map (\<lambda>(c, k). (c, real k / real (sum_list (map snd d)))) d"

text \<open>The model that training returns: training never raises.\<close>

definition trained :: "string list \<Rightarrow> nat \<Rightarrow> model" where
  "trained texts n = map (\<lambda>(h, d). (h, norm_dist d)) (count_loop (padded texts n) n)"

text \<open>The windows of the documents \<open>ts\<close>, each taken with the pad before it and the pad of the
  document that follows it.\<close>

definition joined :: "nat \<Rightarrow> string list \<Rightarrow> (string \<times> char) list" where
  "joined n ts = concat (map (\<lambda>t. windows (pad n @ t @ pad n) n) ts)"

subsection \<open>The log-sum of the specification\<close>

text \<open>A model is well formed when every stored probability is positive (a trained model
  is, and \<^verbatim>\<open>math.log\<close> is defined on nothing else).\<close>

definition model_pos :: "model \<Rightarrow> bool" where
  "model_pos lm \<longleftrightarrow> list_all (\<lambda>e. list_all (\<lambda>cp. 0 < snd cp) (snd e)) lm"

text \<open>The contribution of position \<open>i\<close> to the log-sum: \<open>ln\<close> of the probability when
  the history is in the model and the character is in its distribution, nothing when
  the history is absent or the character unseen.\<close>

definition known_log :: "model \<Rightarrow> string \<Rightarrow> nat \<Rightarrow> nat \<Rightarrow> real" where
  "known_log lm S n i =
     (case entry lm (take n (drop i S)) (S ! (i + n)) of None \<Rightarrow> 0 | Some p \<Rightarrow> ln p)"

text \<open>Position \<open>i\<close> is an unknown outcome: its history is in the model, its character is
  not in the history's distribution.\<close>

definition unk_pos :: "model \<Rightarrow> string \<Rightarrow> nat \<Rightarrow> nat \<Rightarrow> bool" where
  "unk_pos lm S n i \<longleftrightarrow>
     map_of lm (take n (drop i S)) \<noteq> None \<and> entry lm (take n (drop i S)) (S ! (i + n)) = None"

text \<open>The histories with one or more unknown outcomes.\<close>

definition unk_histories :: "model \<Rightarrow> string \<Rightarrow> nat \<Rightarrow> string set" where
  "unk_histories lm S n =
     set (map (\<lambda>i. take n (drop i S)) (filter (unk_pos lm S n) [0..<length S - n]))"

text \<open>The log-sum: the contributions of the positions, and one term per history with
  unknown outcomes, computed from the sum of the values of its distribution.\<close>

definition spec_log_sum :: "model \<Rightarrow> string \<Rightarrow> nat \<Rightarrow> real" where
  "spec_log_sum lm S n =
     (\<Sum>i\<leftarrow>[0..<length S - n]. known_log lm S n i) +
     (\<Sum>h\<in>unk_histories lm S n. ln (1 / (dict_total lm h + 1)))"

text \<open>The log-sum of claim C2, which takes the term of a history from the count of the
  history in the training stream \<open>T\<close> of order \<open>m\<close>.\<close>

definition count_log_sum :: "string \<Rightarrow> nat \<Rightarrow> model \<Rightarrow> string \<Rightarrow> nat \<Rightarrow> real" where
  "count_log_sum T m lm S n =
     (\<Sum>i\<leftarrow>[0..<length S - n]. known_log lm S n i) +
     (\<Sum>h\<in>unk_histories lm S n. ln (1 / (real (history_total T m h) + 1)))"

text \<open>The model that the golden-vector cell of the notebook trains, written out.\<close>

definition golden_lm :: model where
  "golden_lm =
     [(''~~'', [(CHR ''T'', 1)]), (''~T'', [(CHR ''h'', 1)]),
      (''Th'', [(CHR ''e'', 1)]),
      (''he'', [(CHR '' '', 1 / 2), (CHR ''e'', 1 / 2)]),
      (''e '', [(CHR ''w'', 1 / 2), (CHR ''f'', 1 / 2)]),
      ('' w'', [(CHR ''h'', 1)]), (''wh'', [(CHR ''e'', 1)]),
      (''ee'', [(CHR ''l'', 1)]), (''el'', [(CHR '' '', 1)]),
      (''l '', [(CHR ''h'', 1 / 2), (CHR ''c'', 1 / 2)]),
      ('' h'', [(CHR ''a'', 1)]), (''ha'', [(CHR ''s'', 1)]),
      (''as'', [(CHR '' '', 1)]), (''s '', [(CHR ''c'', 1)]),
      ('' c'', [(CHR ''o'', 1 / 2), (CHR ''i'', 1 / 2)]),
      (''co'', [(CHR ''m'', 1)]), (''om'', [(CHR ''e'', 1)]),
      (''me'', [(CHR '' '', 1)]), ('' f'', [(CHR ''u'', 1)]),
      (''fu'', [(CHR ''l'', 1)]), (''ul'', [(CHR ''l'', 1)]),
      (''ll'', [(CHR '' '', 1)]), (''ci'', [(CHR ''r'', 1)]),
      (''ir'', [(CHR ''c'', 1)]), (''rc'', [(CHR ''l'', 1)]),
      (''cl'', [(CHR ''e'', 1)]), (''le'', [(CHR ''.'', 1)])]"

section \<open>Properties of the dictionary update\<close>

lemma map_of_dict_upd:
  "map_of (dict_upd k f dflt kvs) =
     (map_of kvs)(k \<mapsto> f (case map_of kvs k of None \<Rightarrow> dflt | Some v \<Rightarrow> v))"
  by (induction kvs) (auto simp: fun_eq_iff)

lemma keys_dict_upd: "set (map fst (dict_upd k f dflt kvs)) = insert k (set (map fst kvs))"
proof (induction kvs)
  case Nil
  show ?case by simp
next
  case (Cons kv kvs)
  obtain k' v where kv: "kv = (k', v)" by (cases kv)
  show ?case
  proof (cases "k = k'")
    case True
    then show ?thesis by (simp add: kv)
  next
    case False
    then show ?thesis using Cons.IH by (simp add: kv insert_commute)
  qed
qed

lemma distinct_dict_upd:
  "distinct (map fst kvs) \<Longrightarrow> distinct (map fst (dict_upd k f dflt kvs))"
proof (induction kvs)
  case Nil
  show ?case by simp
next
  case (Cons kv kvs)
  obtain k' v where kv: "kv = (k', v)" by (cases kv)
  from Cons have "distinct (map fst (dict_upd k f dflt kvs))" by simp
  moreover have "set (map fst (dict_upd k f dflt kvs)) = insert k (set (map fst kvs))"
    by (rule keys_dict_upd)
  ultimately show ?case using Cons.prems kv by auto
qed

lemma sum_dict_upd_Suc:
  "sum_list (map snd (dict_upd c Suc 0 d)) = Suc (sum_list (map snd d))"
  by (induction d) auto

lemma dict_upd_not_Nil: "dict_upd k f dflt kvs \<noteq> []"
  by (cases kvs) (auto split: if_splits)

section \<open>The counting loop\<close>

lemma count_loop_windows: "count_loop S n = fold bump (windows S n) []"
proof -
  have "count_step S n = (\<lambda>i. bump (take n (drop i S), S ! (i + n)))"
    by (simp add: fun_eq_iff count_step_def bump_def)
  then show ?thesis
    by (simp add: count_loop_def windows_def fold_map comp_def)
qed

lemma counts_ok_Nil: "counts_ok []"
  by (simp add: counts_ok_def)

lemma counts_ok_bump:
  assumes "counts_ok lm"
  shows "counts_ok (bump w lm)"
proof -
  obtain h c where w: "w = (h, c)" by (cases w)
  let ?d0 = "case map_of lm h of None \<Rightarrow> [] | Some d \<Rightarrow> d"
  have d0: "distinct (map fst ?d0) \<and> (\<forall>c k. map_of ?d0 c = Some k \<longrightarrow> 0 < k)"
    using assms by (auto simp: counts_ok_def split: option.splits)
  have m: "map_of (bump w lm) = (map_of lm)(h \<mapsto> dict_upd c Suc 0 ?d0)"
    by (simp add: bump_def w map_of_dict_upd)
  have new: "dict_upd c Suc 0 ?d0 \<noteq> [] \<and> distinct (map fst (dict_upd c Suc 0 ?d0))
      \<and> (\<forall>c' k. map_of (dict_upd c Suc 0 ?d0) c' = Some k \<longrightarrow> 0 < k)"
    using d0 by (auto simp: dict_upd_not_Nil distinct_dict_upd map_of_dict_upd split: if_splits)
  have "distinct (map fst (bump w lm))"
    using assms by (simp add: bump_def counts_ok_def distinct_dict_upd)
  moreover have "\<forall>h' d. map_of (bump w lm) h' = Some d \<longrightarrow>
        d \<noteq> [] \<and> distinct (map fst d) \<and> (\<forall>c k. map_of d c = Some k \<longrightarrow> 0 < k)"
  proof (intro allI impI)
    fix h' d assume a: "map_of (bump w lm) h' = Some d"
    show "d \<noteq> [] \<and> distinct (map fst d) \<and> (\<forall>c k. map_of d c = Some k \<longrightarrow> 0 < k)"
    proof (cases "h' = h")
      case True
      with a m have "d = dict_upd c Suc 0 ?d0" by simp
      with new show ?thesis by simp
    next
      case False
      with a m have "map_of lm h' = Some d" by simp
      with assms show ?thesis unfolding counts_ok_def by blast
    qed
  qed
  ultimately show ?thesis unfolding counts_ok_def by blast
qed

lemma counts_ok_fold: "counts_ok lm \<Longrightarrow> counts_ok (fold bump ws lm)"
  by (induction ws arbitrary: lm) (auto simp: counts_ok_bump)

lemma cnt_bump: "cnt (bump w lm) h c = cnt lm h c + (if w = (h, c) then 1 else 0)"
proof -
  obtain h' c' where w: "w = (h', c')" by (cases w)
  show ?thesis
    by (auto simp: w cnt_def entry_def bump_def map_of_dict_upd split: option.splits)
qed

lemma cnt_fold: "cnt (fold bump ws lm) h c = cnt lm h c + count_list ws (h, c)"
  by (induction ws arbitrary: lm) (auto simp: cnt_bump)

lemma total_bump: "dict_total (bump w lm) h = dict_total lm h + (if fst w = h then 1 else 0)"
  by (auto simp: dict_total_def bump_def map_of_dict_upd sum_dict_upd_Suc split: option.splits)

lemma total_fold:
  "dict_total (fold bump ws lm) h = dict_total lm h + length (filter (\<lambda>w. fst w = h) ws)"
  by (induction ws arbitrary: lm) (auto simp: total_bump)

lemma key_bump: "(map_of (bump w lm) h = None) = (map_of lm h = None \<and> fst w \<noteq> h)"
  by (auto simp: bump_def map_of_dict_upd)

lemma key_fold:
  "(map_of (fold bump ws lm) h = None) = (map_of lm h = None \<and> h \<notin> fst ` set ws)"
  by (induction ws arbitrary: lm) (auto simp: key_bump)

lemma entry_counts_ok:
  "counts_ok lm \<Longrightarrow> entry lm h c = (if cnt lm h c = 0 then None else Some (cnt lm h c))"
  by (auto simp: counts_ok_def cnt_def entry_def split: option.splits)

lemma count_list_windows: "count_list (windows S n) (h, c) = occurrences S n h c"
proof -
  have "count_list (map f is) x = length (filter (\<lambda>i. f i = x) is)" for f :: "nat \<Rightarrow> string \<times> char" and "is" x
    by (induction "is") auto
  then show ?thesis by (simp add: windows_def occurrences_def)
qed

lemma filter_windows: "length (filter (\<lambda>w. fst w = h) (windows S n)) = history_total S n h"
  by (simp add: windows_def history_total_def filter_map comp_def)

lemma history_total_pos: "(h \<in> fst ` set (windows S n)) = (0 < history_total S n h)"
proof -
  have "(h \<in> fst ` set (windows S n)) = (filter (\<lambda>w. fst w = h) (windows S n) \<noteq> [])"
    by (auto simp: filter_empty_conv)
  also have "\<dots> = (0 < length (filter (\<lambda>w. fst w = h) (windows S n)))" by simp
  finally show ?thesis by (simp only: filter_windows)
qed

lemma count_loop_ok: "counts_ok (count_loop S n)"
  by (simp add: count_loop_windows counts_ok_fold counts_ok_Nil)

lemma count_loop_cnt: "cnt (count_loop S n) h c = occurrences S n h c"
proof -
  have "cnt [] h c = 0" by (simp add: cnt_def entry_def)
  then show ?thesis
    using cnt_fold [of "windows S n" "[]" h c]
    by (simp add: count_loop_windows count_list_windows)
qed

lemma count_loop_total: "dict_total (count_loop S n) h = history_total S n h"
proof -
  have "dict_total ([] :: counts) h = 0" by (simp add: dict_total_def)
  then show ?thesis
    using total_fold [of "windows S n" "[]" h]
    by (simp add: count_loop_windows filter_windows)
qed

lemma count_loop_key: "(map_of (count_loop S n) h = None) = (history_total S n h = 0)"
  using history_total_pos [of h S n] by (simp add: count_loop_windows key_fold)

section \<open>Normalisation\<close>

lemma normalize_pos:
  assumes "0 < sum_list (map snd d)"
  shows "normalize_counter d = Inr (norm_dist d)"
proof -
  from assms have "\<not> (d \<noteq> [] \<and> sum_list (map snd d) = 0)" by linarith
  then show ?thesis
    unfolding normalize_counter_def norm_dist_def Let_def by (rule if_not_P)
qed

lemma normalize_all_pos:
  "\<forall>e \<in> set lm. 0 < sum_list (map snd (snd e)) \<Longrightarrow>
     normalize_all lm = Inr (map (\<lambda>(h, d). (h, norm_dist d)) lm)"
proof (induction lm)
  case Nil
  show ?case by simp
next
  case (Cons e lm)
  obtain h d where hd: "e = (h, d)" by (cases e)
  from Cons.prems hd have "normalize_counter d = Inr (norm_dist d)"
    by (simp add: normalize_pos)
  moreover from Cons have "normalize_all lm = Inr (map (\<lambda>(h, d). (h, norm_dist d)) lm)"
    by simp
  ultimately show ?case by (simp add: hd)
qed

lemma sum_pos_member:
  fixes d :: counter
  assumes "d \<noteq> []" and "\<forall>ck \<in> set d. 0 < snd ck"
  shows "0 < sum_list (map snd d)"
proof -
  from assms(1) obtain ck where ck: "ck \<in> set d" by (cases d) auto
  then have "snd ck \<le> sum_list (map snd d)"
    by (simp add: member_le_sum_list)
  with assms(2) ck show ?thesis by fastforce
qed

lemma counts_ok_sum_pos:
  assumes "counts_ok lm" and "e \<in> set lm"
  shows "0 < sum_list (map snd (snd e))"
proof -
  obtain h d where hd: "e = (h, d)" by (cases e)
  from assms hd have m: "map_of lm h = Some d"
    by (simp add: counts_ok_def)
  with assms(1) have d: "d \<noteq> []" "distinct (map fst d)" "\<forall>c k. map_of d c = Some k \<longrightarrow> 0 < k"
    unfolding counts_ok_def by blast+
  have "\<forall>ck \<in> set d. 0 < snd ck"
  proof
    fix ck assume "ck \<in> set d"
    with d(2) have "map_of d (fst ck) = Some (snd ck)" by simp
    with d(3) show "0 < snd ck" by blast
  qed
  with d(1) show ?thesis by (simp add: hd sum_pos_member)
qed

lemma normalize_all_counts_ok:
  "counts_ok lm \<Longrightarrow> normalize_all lm = Inr (map (\<lambda>(h, d). (h, norm_dist d)) lm)"
  by (rule normalize_all_pos) (simp add: counts_ok_sum_pos)

lemma train_char_lm_trained: "train_char_lm texts n = Inr (trained texts n)"
  by (simp add: train_char_lm_def trained_def normalize_all_counts_ok count_loop_ok)

lemma map_of_trained:
  "map_of (trained texts n) h = map_option norm_dist (map_of (count_loop (padded texts n) n) h)"
  by (simp add: trained_def map_of_map)

lemma map_of_norm_dist:
  "map_of (norm_dist d) c = map_option (\<lambda>k. real k / real (sum_list (map snd d))) (map_of d c)"
  by (simp add: norm_dist_def map_of_map)

lemma sum_norm_dist:
  assumes "0 < sum_list (map snd d)"
  shows "sum_list (map snd (norm_dist d)) = 1"
proof -
  define s where "s = real (sum_list (map snd d))"
  have "sum_list (map snd (map (\<lambda>(c, k). (c, real k / s)) e)) = real (sum_list (map snd e)) / s"
    for e :: counter
    by (induction e) (auto simp: add_divide_distrib)
  then have "sum_list (map snd (norm_dist d)) = s / s"
    by (simp add: norm_dist_def s_def)
  moreover from assms have "s \<noteq> 0"
    unfolding s_def by (simp only: of_nat_eq_0_iff)
  ultimately show ?thesis by simp
qed

lemma trained_key:
  "(map_of (trained texts n) h = None) = (history_total (padded texts n) n h = 0)"
  by (simp add: map_of_trained count_loop_key)

lemma trained_entry:
  "entry (trained texts n) h c =
     (if occurrences (padded texts n) n h c = 0 then None
      else Some (real (occurrences (padded texts n) n h c)
                 / real (history_total (padded texts n) n h)))"
proof -
  let ?S = "padded texts n"
  let ?lm = "count_loop ?S n"
  have e: "entry ?lm h c = (if cnt ?lm h c = 0 then None else Some (cnt ?lm h c))"
    by (rule entry_counts_ok) (rule count_loop_ok)
  show ?thesis
  proof (cases "map_of ?lm h")
    case None
    then have "entry ?lm h c = None" by (simp add: entry_def)
    with e have "occurrences ?S n h c = 0"
      by (simp add: count_loop_cnt split: if_splits)
    with None show ?thesis by (simp add: entry_def map_of_trained)
  next
    case (Some d)
    then have t: "sum_list (map snd d) = history_total ?S n h"
      using count_loop_total [of ?S n h] by (simp add: dict_total_def)
    from Some have "map_of d c = (if occurrences ?S n h c = 0 then None
        else Some (occurrences ?S n h c))"
      using e by (simp add: entry_def count_loop_cnt)
    with Some t show ?thesis
      by (simp add: entry_def map_of_trained map_of_norm_dist)
  qed
qed

section \<open>The padded stream\<close>

lemma padded_Nil: "padded [] n = []"
  by (simp add: padded_def)

lemma padded_Cons: "padded (t # ts) n = pad n @ t @ padded ts n"
  by (simp add: padded_def)

lemma length_pad: "length (pad n) = n"
  by (simp add: pad_def)

lemma take_padded: "texts \<noteq> [] \<Longrightarrow> take n (padded texts n) = pad n"
  by (cases texts) (simp_all add: padded_Cons length_pad)

lemma windows_Nil_iff: "(windows S n = []) = (length S \<le> n)"
  by (simp add: windows_def)

lemma count_loop_Nil_iff: "(count_loop S n = []) = (length S \<le> n)"
proof -
  have "fold bump ws lm = [] \<longleftrightarrow> ws = [] \<and> lm = []" for ws lm
  proof (cases ws)
    case Nil
    then show ?thesis by simp
  next
    case (Cons w ws')
    then have "fst w \<in> fst ` set ws" by simp
    then have "map_of (fold bump ws lm) (fst w) \<noteq> None"
      by (simp add: key_fold)
    then have "fold bump ws lm \<noteq> []" by auto
    with Cons show ?thesis by simp
  qed
  then show ?thesis by (simp add: count_loop_windows windows_Nil_iff)
qed

lemma trained_Nil_iff: "(trained texts n = []) = (length (padded texts n) \<le> n)"
  by (simp add: trained_def count_loop_Nil_iff)

lemma pad_history_occurs:
  assumes "n < length (padded texts n)"
  shows "0 < history_total (padded texts n) n (pad n)"
proof -
  let ?S = "padded texts n"
  from assms have "texts \<noteq> []" by (auto simp: padded_Nil)
  then have t: "take n ?S = pad n" by (rule take_padded)
  from assms have "0 \<in> set [0..<length ?S - n]" by simp
  then have "(\<lambda>i. (take n (drop i ?S), ?S ! (i + n))) 0 \<in> set (windows ?S n)"
    unfolding windows_def set_map by (rule imageI)
  then have "(pad n, ?S ! n) \<in> set (windows ?S n)" using t by simp
  then have "pad n \<in> fst ` set (windows ?S n)" by force
  then show ?thesis by (simp only: history_total_pos)
qed

section \<open>Training: entries, distributions, boundaries\<close>

text \<open>
  Claim C1. For every order \<open>n\<close> (in particular \<open>n \<ge> 1\<close>) and every document list, with
  \<open>S\<close> the padded training stream, \<open>train_char_lm\<close> returns a model; a history \<open>h\<close> is a key
  of the model exactly when it occurs at some position of \<open>S\<close>, the model has an entry
  for \<open>h\<close> and \<open>c\<close> exactly when \<open>(h, c)\<close> occurs as \<open>(S[i:i+n], S[i+n])\<close> at some position
  \<open>i\<close> from 0 to \<open>len(S)-n-1\<close>, and that entry is the number of occurrences of \<open>(h, c)\<close>
  divided by the number of occurrences of \<open>h\<close>, nothing added.
\<close>

theorem train_entries_are_count_ratios:
  "\<exists>lm. train_char_lm texts n = Inr lm \<and>
     (\<forall>h. (map_of lm h \<noteq> None) = (0 < history_total (padded texts n) n h)) \<and>
     (\<forall>h c. entry lm h c =
        (if occurrences (padded texts n) n h c = 0 then None
         else Some (real (occurrences (padded texts n) n h c)
                    / real (history_total (padded texts n) n h))))"
proof (intro exI conjI allI)
  show "train_char_lm texts n = Inr (trained texts n)"
    by (rule train_char_lm_trained)
next
  fix h
  show "(map_of (trained texts n) h \<noteq> None) = (0 < history_total (padded texts n) n h)"
    using trained_key [of texts n h] by simp
next
  fix h c
  show "entry (trained texts n) h c =
        (if occurrences (padded texts n) n h c = 0 then None
         else Some (real (occurrences (padded texts n) n h c)
                    / real (history_total (padded texts n) n h)))"
    by (rule trained_entry)
qed

theorem train_entries_are_count_ratios_witness:
  "\<exists>lm. train_char_lm [''ab'', ''ac''] 1 = Inr lm \<and>
     map_of lm ''c'' = None \<and>
     entry lm ''a'' CHR ''b'' = Some (1 / 2) \<and>
     entry lm ''a'' CHR ''~'' = None \<and>
     entry lm ''a'' CHR ''c'' = Some (1 / 2) \<and>
     entry lm ''a'' CHR ''a'' = None"
proof -
  have a: "history_total (padded [''ab'', ''ac''] 1) 1 ''a'' = 2"
    "history_total (padded [''ab'', ''ac''] 1) 1 ''c'' = 0"
    by code_simp+
  have o: "occurrences (padded [''ab'', ''ac''] 1) 1 ''a'' CHR ''b'' = 1"
    "occurrences (padded [''ab'', ''ac''] 1) 1 ''a'' CHR ''~'' = 0"
    "occurrences (padded [''ab'', ''ac''] 1) 1 ''a'' CHR ''c'' = 1"
    "occurrences (padded [''ab'', ''ac''] 1) 1 ''a'' CHR ''a'' = 0"
    by code_simp+
  from train_entries_are_count_ratios [of "[''ab'', ''ac'']" 1]
  obtain lm where lm: "train_char_lm [''ab'', ''ac''] 1 = Inr lm"
    "\<forall>h. (map_of lm h \<noteq> None) = (0 < history_total (padded [''ab'', ''ac''] 1) 1 h)"
    "\<forall>h c. entry lm h c =
        (if occurrences (padded [''ab'', ''ac''] 1) 1 h c = 0 then None
         else Some (real (occurrences (padded [''ab'', ''ac''] 1) 1 h c)
                    / real (history_total (padded [''ab'', ''ac''] 1) 1 h)))"
    by blast
  from spec [OF lm(2), of "''c''"] a(2) have "map_of lm ''c'' = None" by simp
  moreover from lm(3) [rule_format, of "''a''"] a(1) o have "entry lm ''a'' CHR ''b'' = Some (1 / 2)"
    "entry lm ''a'' CHR ''~'' = None"
    "entry lm ''a'' CHR ''c'' = Some (1 / 2)" "entry lm ''a'' CHR ''a'' = None"
    by simp_all
  ultimately show ?thesis using lm(1) by blast
qed

text \<open>
  Claim C5. For every trained model and every history present in it, the values of that
  history's distribution sum to 1 (exactly in this model of the arithmetic, hence within
  the relative tolerance \<open>1e-9\<close>), a character has an entry exactly when it was observed
  after that history in the training stream, and every entry is positive.
\<close>

theorem trained_distribution_sums_to_one:
  assumes "train_char_lm texts n = Inr lm" and "map_of lm h = Some d"
  shows "sum_list (map snd d) = 1 \<and>
         \<bar>sum_list (map snd d) - 1\<bar> \<le> 1 / 10 ^ 9 * 1 \<and>
         (\<forall>c. (map_of d c \<noteq> None) = (0 < occurrences (padded texts n) n h c)) \<and>
         (\<forall>c p. map_of d c = Some p \<longrightarrow> 0 < p)"
proof -
  let ?S = "padded texts n"
  from assms(1) have lm: "lm = trained texts n"
    by (simp add: train_char_lm_trained)
  with assms(2) obtain d0 where d0: "map_of (count_loop ?S n) h = Some d0" "d = norm_dist d0"
    by (auto simp: map_of_trained)
  from d0(1) have "(h, d0) \<in> set (count_loop ?S n)" by (rule map_of_SomeD)
  then have pos: "0 < sum_list (map snd d0)"
    using counts_ok_sum_pos [OF count_loop_ok, of "(h, d0)" ?S n] by simp
  then have one: "sum_list (map snd d) = 1"
    by (simp only: d0(2) sum_norm_dist)
  have e: "map_of d c = entry lm h c" for c
    using assms(2) by (simp add: entry_def)
  have occ: "(map_of d c \<noteq> None) = (0 < occurrences ?S n h c)" for c
    by (simp add: e lm trained_entry)
  have "0 < p" if "map_of d c = Some p" for c p
  proof -
    from that obtain k where k: "map_of d0 c = Some k" "p = real k / real (sum_list (map snd d0))"
      by (auto simp: d0(2) map_of_norm_dist)
    from k(1) d0(1) have "0 < k"
      using count_loop_ok [of ?S n] unfolding counts_ok_def by blast
    with pos show ?thesis unfolding k(2) by (simp only: divide_pos_pos of_nat_0_less_iff)
  qed
  with one occ show ?thesis by simp
qed

theorem trained_distribution_sums_to_one_witness:
  "train_char_lm [''ab'', ''ac''] 1 =
     Inr [(''~'', [(CHR ''a'', 1)]), (''a'', [(CHR ''b'', 1 / 2), (CHR ''c'', 1 / 2)]),
          (''b'', [(CHR ''~'', 1)])] \<and>
   sum_list (map snd [(CHR ''b'', 1 / 2 :: real), (CHR ''c'', 1 / 2)]) = 1 \<and>
   0 < occurrences (padded [''ab'', ''ac''] 1) 1 ''a'' CHR ''b'' \<and>
   occurrences (padded [''ab'', ''ac''] 1) 1 ''a'' CHR ''d'' = 0"
proof -
  have t: "train_char_lm [''ab'', ''ac''] 1 =
     Inr [(''~'', [(CHR ''a'', 1)]), (''a'', [(CHR ''b'', 1 / 2), (CHR ''c'', 1 / 2)]),
          (''b'', [(CHR ''~'', 1)])]"
    by code_simp
  have m: "map_of [(''~'', [(CHR ''a'', 1 :: real)]), (''a'', [(CHR ''b'', 1 / 2), (CHR ''c'', 1 / 2)]),
          (''b'', [(CHR ''~'', 1)])] ''a'' = Some [(CHR ''b'', 1 / 2), (CHR ''c'', 1 / 2)]"
    by simp
  note r = trained_distribution_sums_to_one [OF t m]
  from r have s: "sum_list (map snd [(CHR ''b'', 1 / 2 :: real), (CHR ''c'', 1 / 2)]) = 1"
    by blast
  from r have c: "(map_of [(CHR ''b'', 1 / 2 :: real), (CHR ''c'', 1 / 2)] c \<noteq> None) =
      (0 < occurrences (padded [''ab'', ''ac''] 1) 1 ''a'' c)" for c
    by blast
  from c [of "CHR ''b''"] c [of "CHR ''d''"] s t show ?thesis by simp
qed

text \<open>
  Claim C10. For every order \<open>n\<close> (in particular \<open>n \<ge> 1\<close>) and every document list, the
  trained model is non-empty exactly when the padded training stream is longer than
  \<open>n\<close>, and then the all-pad history \<open>pad n\<close> is one of its keys, so that the first
  lookup of the generator, \<open>generate_letter\<close> on the initial history, does not raise.
\<close>

theorem pad_history_is_key:
  assumes "train_char_lm texts n = Inr lm"
  shows "((lm \<noteq> []) = (n < length (padded texts n))) \<and>
         (lm \<noteq> [] \<longrightarrow>
            (\<exists>dst. map_of lm (pad n) = Some dst \<and>
                   generate_letter lm (pad n) n x = Inr (sample dst x)))"
proof -
  from assms have lm: "lm = trained texts n"
    by (simp add: train_char_lm_trained)
  have a: "(lm \<noteq> []) = (n < length (padded texts n))"
    using trained_Nil_iff [of texts n] by (simp add: lm not_le)
  have l: "last_n n (pad n) = pad n"
    by (simp add: last_n_def length_pad)
  have "\<exists>dst. map_of lm (pad n) = Some dst \<and> generate_letter lm (pad n) n x = Inr (sample dst x)"
    if "lm \<noteq> []"
  proof -
    from that a have "0 < history_total (padded texts n) n (pad n)"
      by (simp add: pad_history_occurs)
    then have "map_of lm (pad n) \<noteq> None"
      by (simp add: lm trained_key)
    then obtain dst where "map_of lm (pad n) = Some dst" by blast
    then show ?thesis by (simp add: generate_letter_def l)
  qed
  with a show ?thesis by blast
qed

theorem pad_history_is_key_witness:
  "train_char_lm [''ab''] 2 =
     Inr [(''~~'', [(CHR ''a'', 1)]), (''~a'', [(CHR ''b'', 1)])] \<and>
   generate_letter [(''~~'', [(CHR ''a'', 1)]), (''~a'', [(CHR ''b'', 1)])] (pad 2) 2 (1 / 2) =
     Inr (Some CHR ''a'')"
proof -
  have t: "train_char_lm [''ab''] 2 =
     Inr [(''~~'', [(CHR ''a'', 1)]), (''~a'', [(CHR ''b'', 1)])]"
    by code_simp
  have p: "pad 2 = ''~~''" by code_simp
  from pad_history_is_key [OF t, of "1 / 2"] show ?thesis
    using t by (auto simp: p)
qed

text \<open>
  Claim C4 as stated asks for an error in each of these calls; the code returns a model:
  the empty one for the empty document list and for a padded stream no longer than \<open>n\<close>,
  the character frequencies of the documents for the order 0.
\<close>

theorem train_returns_on_empty_input:
  "train_char_lm [] 2 = Inr [] \<and> train_char_lm [''''] 2 = Inr [] \<and>
   train_char_lm [''ab''] 0 = Inr [('''', [(CHR ''a'', 1 / 2), (CHR ''b'', 1 / 2)])]"
  by code_simp

text \<open>
  Claim C4, as the code has it. \<open>train_char_lm\<close> validates nothing and never raises: it
  returns a model for every document list and every order, the order 0 included; the
  model is empty whenever the padded stream is not longer than \<open>n\<close>, in particular for
  the empty document list. \<open>perplexity\<close> on the empty corpus does raise, a
  \<^verbatim>\<open>ZeroDivisionError\<close> from the division by the length of the empty stream.
\<close>

theorem train_never_raises:
  "(\<exists>m. train_char_lm texts n = Inr m) \<and>
   (length (padded texts n) \<le> n \<longrightarrow> train_char_lm texts n = Inr []) \<and>
   train_char_lm [] n = Inr [] \<and>
   (\<exists>m. train_char_lm texts 0 = Inr m) \<and>
   perplexity lm [] n = Inl ZeroDivisionError"
proof -
  have "train_char_lm texts n = Inr []" if "length (padded texts n) \<le> n"
    using that trained_Nil_iff [of texts n] by (simp add: train_char_lm_trained)
  moreover have "train_char_lm [] n = Inr []"
    using trained_Nil_iff [of "[]" n] by (simp add: train_char_lm_trained padded_Nil)
  moreover have "perplexity lm [] n = Inl ZeroDivisionError"
    by (simp add: perplexity_def perplexity_logsum_def padded_Nil)
  ultimately show ?thesis by (simp add: train_char_lm_trained)
qed

theorem train_never_raises_witness:
  "length (padded [''''] 2) \<le> 2 \<and> train_char_lm [''''] 2 = Inr [] \<and>
   perplexity [(''~~'', [(CHR ''a'', 1)])] [] 2 = Inl ZeroDivisionError"
proof -
  have l: "length (padded [''''] 2) \<le> 2" by code_simp
  with train_never_raises [of "['''']" 2 "[(''~~'', [(CHR ''a'', 1)])]"] show ?thesis
    by blast
qed

section \<open>The windows of a padded stream, document by document\<close>

lemma windows_Cons:
  "windows (x # S) n = (if n \<le> length S then (take n (x # S), (x # S) ! n) # windows S n else [])"
proof (cases "n \<le> length S")
  case True
  then have l: "length (x # S) - n = Suc (length S - n)" by simp
  have u: "[0..<Suc m] = 0 # map Suc [0..<m]" for m
    by (simp add: upt_conv_Cons map_Suc_upt del: upt_Suc)
  show ?thesis
    unfolding windows_def l u using True by (simp add: comp_def)
next
  case False
  then show ?thesis by (simp add: windows_def)
qed

lemma windows_short: "length S \<le> n \<Longrightarrow> windows S n = []"
  by (simp add: windows_def)

lemma windows_append:
  "windows (A @ B) n = windows (A @ take n B) n @ windows B n"
proof (cases "length B \<le> n")
  case True
  then show ?thesis by (simp add: windows_short)
next
  case False
  then have B: "n < length B" by simp
  show ?thesis
  proof (induction A)
    case Nil
    show ?case by (simp add: windows_short)
  next
    case (Cons a A)
    have h: "take n (a # A @ take n B) = take n (a # A @ B)"
      by (cases n) simp_all
    have c: "(a # A @ take n B) ! n = (a # A @ B) ! n"
      by (cases n) (auto simp: nth_append)
    from B have "n \<le> length (A @ B)" "n \<le> length (A @ take n B)" by simp_all
    then show ?case using Cons.IH h c
      by (simp only: append_Cons windows_Cons if_True)
  qed
qed

lemma windows_padded:
  "texts \<noteq> [] \<Longrightarrow>
     windows (padded texts n) n = joined n (butlast texts) @ windows (pad n @ last texts) n"
proof (induction texts)
  case Nil
  then show ?case by simp
next
  case (Cons t ts)
  show ?case
  proof (cases "ts = []")
    case True
    then show ?thesis by (simp add: padded_Cons padded_Nil joined_def)
  next
    case False
    then have "take n (padded ts n) = pad n" by (rule take_padded)
    then have "windows (padded (t # ts) n) n = windows (pad n @ t @ pad n) n @ windows (padded ts n) n"
      using windows_append [of "pad n @ t" "padded ts n" n] by (simp add: padded_Cons)
    with False Cons.IH show ?thesis by (simp add: joined_def)
  qed
qed

lemma mset_joined: "mset xs = mset ys \<Longrightarrow> mset (joined n xs) = mset (joined n ys)"
proof -
  have "mset (joined n ts) = sum_mset (image_mset (\<lambda>t. mset (windows (pad n @ t @ pad n) n)) (mset ts))" for ts
    by (induction ts) (simp_all add: joined_def)
  then show "mset xs = mset ys \<Longrightarrow> mset (joined n xs) = mset (joined n ys)" by simp
qed

lemma mset_windows_padded:
  assumes "mset texts = mset texts'" and "last texts = last texts'"
  shows "mset (windows (padded texts n) n) = mset (windows (padded texts' n) n)"
proof (cases "texts = []")
  case True
  with assms(1) show ?thesis by simp
next
  case False
  with assms(1) have ne: "texts' \<noteq> []" by auto
  have b: "mset (butlast xs) = mset xs - {#last xs#}" if "xs \<noteq> []" for xs :: "string list"
  proof -
    from that have "mset xs = mset (butlast xs @ [last xs])" by simp
    then show ?thesis by simp
  qed
  from b [OF False] b [OF ne] have "mset (butlast texts) = mset (butlast texts')"
    using assms by simp
  then have "mset (joined n (butlast texts)) = mset (joined n (butlast texts'))"
    by (rule mset_joined)
  then show ?thesis
    using False ne assms(2) by (simp add: windows_padded)
qed

lemma occurrences_mset: "occurrences S n h c = count (mset (windows S n)) (h, c)"
  by (simp add: count_list_windows [symmetric] count_mset)
lemma history_total_mset:
  "history_total S n h = size (filter_mset (\<lambda>w. fst w = h) (mset (windows S n)))"
  by (simp only: filter_windows [symmetric] mset_filter [symmetric] size_mset)

section \<open>The order of the documents\<close>

text \<open>
  Claim C3 as stated fails: the documents \<open>a\<close>, \<open>b\<close> and \<open>b\<close>, \<open>a\<close> are permutations of
  each other, and at order 1 the first list gives a model with the key \<open>a\<close> and without
  the key \<open>b\<close>, the second one the reverse.
\<close>

theorem train_document_order_matters:
  "mset [''a'', ''b''] = mset [''b'', ''a''] \<and>
   train_char_lm [''a'', ''b''] 1 =
     Inr [(''~'', [(CHR ''a'', 1 / 2), (CHR ''b'', 1 / 2)]), (''a'', [(CHR ''~'', 1)])] \<and>
   train_char_lm [''b'', ''a''] 1 =
     Inr [(''~'', [(CHR ''b'', 1 / 2), (CHR ''a'', 1 / 2)]), (''b'', [(CHR ''~'', 1)])] \<and>
   \<not> same_model
     [(''~'', [(CHR ''a'', 1 / 2), (CHR ''b'', 1 / 2)]), (''a'', [(CHR ''~'', 1)])]
     [(''~'', [(CHR ''b'', 1 / 2), (CHR ''a'', 1 / 2)]), (''b'', [(CHR ''~'', 1)])]"
proof -
  have "mset [''a'', ''b''] = mset [''b'', ''a'']" by simp
  moreover have "train_char_lm [''a'', ''b''] 1 =
     Inr [(''~'', [(CHR ''a'', 1 / 2), (CHR ''b'', 1 / 2)]), (''a'', [(CHR ''~'', 1)])]"
    by code_simp
  moreover have "train_char_lm [''b'', ''a''] 1 =
     Inr [(''~'', [(CHR ''b'', 1 / 2), (CHR ''a'', 1 / 2)]), (''b'', [(CHR ''~'', 1)])]"
    by code_simp
  moreover have "\<not> same_model
     [(''~'', [(CHR ''a'', 1 / 2), (CHR ''b'', 1 / 2)]), (''a'', [(CHR ''~'', 1)])]
     [(''~'', [(CHR ''b'', 1 / 2), (CHR ''a'', 1 / 2)]), (''b'', [(CHR ''~'', 1)])]"
  proof
    assume "same_model
     [(''~'', [(CHR ''a'', 1 / 2), (CHR ''b'', 1 / 2)]), (''a'', [(CHR ''~'', 1)])]
     [(''~'', [(CHR ''b'', 1 / 2), (CHR ''a'', 1 / 2)]), (''b'', [(CHR ''~'', 1)])]"
    then have "(map_of [(''~'', [(CHR ''a'', 1 / 2 :: real), (CHR ''b'', 1 / 2)]), (''a'', [(CHR ''~'', 1)])] ''a'' = None)
      = (map_of [(''~'', [(CHR ''b'', 1 / 2 :: real), (CHR ''a'', 1 / 2)]), (''b'', [(CHR ''~'', 1)])] ''a'' = None)"
      unfolding same_model_def by blast
    then show False by simp
  qed
  ultimately show ?thesis by blast
qed

text \<open>
  Claim C3, as the code has it. The windows that straddle two documents belong to the
  document before the boundary, and the last document has none. For every order and
  every two document lists that are permutations of each other and end with the same
  document, training yields the same counts and the same model (equal as dictionaries:
  same keys, same entries).
\<close>

theorem train_permutation_same_last:
  assumes "mset texts = mset texts'" and "last texts = last texts'"
  shows "(\<forall>h c. occurrences (padded texts n) n h c = occurrences (padded texts' n) n h c) \<and>
         (\<exists>a b. train_char_lm texts n = Inr a \<and> train_char_lm texts' n = Inr b \<and>
                same_model a b)"
proof -
  from assms have w: "mset (windows (padded texts n) n) = mset (windows (padded texts' n) n)"
    by (rule mset_windows_padded)
  have o: "occurrences (padded texts n) n h c = occurrences (padded texts' n) n h c" for h c
    by (simp only: occurrences_mset w)
  have t: "history_total (padded texts n) n h = history_total (padded texts' n) n h" for h
    by (simp only: history_total_mset w)
  have "same_model (trained texts n) (trained texts' n)"
    unfolding same_model_def by (simp add: trained_key trained_entry o t)
  with o show ?thesis by (simp add: train_char_lm_trained)
qed

theorem train_permutation_same_last_witness:
  "mset [''a'', ''b'', ''c''] = mset [''b'', ''a'', ''c''] \<and>
   last [''a'', ''b'', ''c''] = last [''b'', ''a'', ''c''] \<and>
   train_char_lm [''a'', ''b'', ''c''] 1 =
     Inr [(''~'', [(CHR ''a'', 1 / 3), (CHR ''b'', 1 / 3), (CHR ''c'', 1 / 3)]),
          (''a'', [(CHR ''~'', 1)]), (''b'', [(CHR ''~'', 1)])] \<and>
   train_char_lm [''b'', ''a'', ''c''] 1 =
     Inr [(''~'', [(CHR ''b'', 1 / 3), (CHR ''a'', 1 / 3), (CHR ''c'', 1 / 3)]),
          (''b'', [(CHR ''~'', 1)]), (''a'', [(CHR ''~'', 1)])] \<and>
   same_model
     [(''~'', [(CHR ''a'', 1 / 3), (CHR ''b'', 1 / 3), (CHR ''c'', 1 / 3)]),
      (''a'', [(CHR ''~'', 1)]), (''b'', [(CHR ''~'', 1)])]
     [(''~'', [(CHR ''b'', 1 / 3), (CHR ''a'', 1 / 3), (CHR ''c'', 1 / 3)]),
      (''b'', [(CHR ''~'', 1)]), (''a'', [(CHR ''~'', 1)])]"
proof -
  have m: "mset [''a'', ''b'', ''c''] = mset [''b'', ''a'', ''c'']" by simp
  have l: "last [''a'', ''b'', ''c''] = last [''b'', ''a'', ''c'']" by simp
  have a: "train_char_lm [''a'', ''b'', ''c''] 1 =
     Inr [(''~'', [(CHR ''a'', 1 / 3), (CHR ''b'', 1 / 3), (CHR ''c'', 1 / 3)]),
          (''a'', [(CHR ''~'', 1)]), (''b'', [(CHR ''~'', 1)])]"
    by code_simp
  have b: "train_char_lm [''b'', ''a'', ''c''] 1 =
     Inr [(''~'', [(CHR ''b'', 1 / 3), (CHR ''a'', 1 / 3), (CHR ''c'', 1 / 3)]),
          (''b'', [(CHR ''~'', 1)]), (''a'', [(CHR ''~'', 1)])]"
    by code_simp
  from train_permutation_same_last [OF m l, of 1] a b m l show ?thesis
    by simp
qed

section \<open>The generation loop\<close>

lemma length_last_n: "0 < n \<Longrightarrow> length (last_n n s) = min n (length s)"
  by (simp add: last_n_def)

lemma last_n_snoc:
  assumes "0 < n"
  shows "last_n n (s @ [c]) = (if n \<le> length (last_n n s) then tl (last_n n s) else last_n n s) @ [c]"
proof (cases "n \<le> length s")
  case True
  with assms have "length s + 1 - n = Suc (length s - n)" by simp
  with True assms show ?thesis
    by (simp add: last_n_def drop_Suc tl_drop)
next
  case False
  with assms show ?thesis by (simp add: last_n_def)
qed

lemma last_n_cong_snoc:
  "0 < n \<Longrightarrow> last_n n a = last_n n b \<Longrightarrow> last_n n (a @ [c]) = last_n n (b @ [c])"
  by (simp only: last_n_snoc)

lemma last_n_idem: "0 < n \<Longrightarrow> last_n n (last_n n s) = last_n n s"
  by (simp add: last_n_def)

text \<open>The history buffer of \<open>generate_text\<close> always ends with the last \<open>n\<close> characters
  of the pad followed by the output so far, and a run of \<open>j + k\<close> iterations continues
  a run of \<open>j\<close> iterations.\<close>

lemma generate_loop_add:
  assumes "0 < n"
  shows "last_n n h = last_n n (p @ out) \<Longrightarrow>
         generate_loop lm n rng i j h out = Inr out' \<Longrightarrow>
         \<exists>h'. last_n n h' = last_n n (p @ out') \<and>
              generate_loop lm n rng i (j + k) h out = generate_loop lm n rng (i + j) k h' out'"
proof (induction j arbitrary: i h out)
  case 0
  then show ?case by auto
next
  case (Suc j)
  from Suc.prems(2) obtain c where
    c: "generate_letter lm h n (rng i) = Inr (Some c)"
    and r: "generate_loop lm n rng (Suc i) j (last_n n h @ [c]) (out @ [c]) = Inr out'"
    by (simp split: sum.splits option.splits)
  have "last_n n (last_n n h @ [c]) = last_n n ((p @ out) @ [c])"
    using assms Suc.prems(1) by (intro last_n_cong_snoc) (simp_all add: last_n_idem)
  then have "last_n n (last_n n h @ [c]) = last_n n (p @ (out @ [c]))" by simp
  from Suc.IH [OF this r] obtain h' where h':
    "last_n n h' = last_n n (p @ out')"
    "generate_loop lm n rng (Suc i) (j + k) (last_n n h @ [c]) (out @ [c]) =
       generate_loop lm n rng (Suc i + j) k h' out'"
    by blast
  have "generate_loop lm n rng i (Suc j + k) h out =
      generate_loop lm n rng (Suc i) (j + k) (last_n n h @ [c]) (out @ [c])"
    using c by simp
  with h' have "last_n n h' = last_n n (p @ out') \<and>
     generate_loop lm n rng i (Suc j + k) h out = generate_loop lm n rng (i + Suc j) k h' out'"
    by simp
  then show ?case by (rule exI)
qed

lemma generate_loop_unknown:
  "map_of lm (last_n n h) = None \<Longrightarrow> generate_loop lm n rng i (Suc k) h out = Inl KeyError"
  by (simp add: generate_letter_def)

text \<open>
  Claim C7. For every model, order \<open>n \<ge> 1\<close> and requested length \<open>L\<close>: if after \<open>j < L\<close>
  generation steps (which produced \<open>out\<close>) the current history, the last \<open>n\<close> characters
  of the pad followed by \<open>out\<close>, is absent from the model, then \<open>generate_text\<close> fails;
  the exception is the \<^verbatim>\<open>KeyError\<close> of the dictionary lookup \<^verbatim>\<open>lm[history]\<close>, no
  value is returned.
\<close>

theorem generate_unknown_history_raises:
  assumes "1 \<le> n" and "j < L"
    and "generate_text lm n j rng = Inr out"
    and "map_of lm (last_n n (pad n @ out)) = None"
  shows "generate_text lm n L rng = Inl KeyError"
proof -
  from assms(2) obtain k0 where "L = Suc (j + k0)"
    by (rule less_imp_Suc_add [THEN exE])
  then obtain k where L: "L = j + Suc k" by simp
  from assms(1) have n: "0 < n" by simp
  have e: "last_n n (pad n) = last_n n (pad n @ [])" by simp
  from assms(3) have g: "generate_loop lm n rng 0 j (pad n) [] = Inr out"
    by (simp only: generate_text_def)
  from generate_loop_add [OF n e g, of "Suc k"]
  obtain h' where h': "last_n n h' = last_n n (pad n @ out)"
    "generate_loop lm n rng 0 (j + Suc k) (pad n) [] = generate_loop lm n rng (0 + j) (Suc k) h' out"
    by (elim exE conjE)
  from h'(1) assms(4) have "map_of lm (last_n n h') = None" by simp
  then have "generate_loop lm n rng (0 + j) (Suc k) h' out = Inl KeyError"
    by (rule generate_loop_unknown)
  with h'(2) show ?thesis by (simp add: generate_text_def L)
qed

theorem generate_unknown_history_raises_witness:
  "generate_text [(''~'', [(CHR ''a'', 1)]), (''a'', [(CHR ''b'', 1)])] 1 2 (\<lambda>i. 1 / 2) = Inr ''ab'' \<and>
   map_of [(''~'', [(CHR ''a'', 1 :: real)]), (''a'', [(CHR ''b'', 1)])] (last_n 1 (pad 1 @ ''ab'')) = None \<and>
   generate_text [(''~'', [(CHR ''a'', 1)]), (''a'', [(CHR ''b'', 1)])] 1 5 (\<lambda>i. 1 / 2) = Inl KeyError"
proof -
  have g: "generate_text [(''~'', [(CHR ''a'', 1)]), (''a'', [(CHR ''b'', 1)])] 1 2 (\<lambda>i. 1 / 2) = Inr ''ab''"
    by code_simp
  have m: "map_of [(''~'', [(CHR ''a'', 1 :: real)]), (''a'', [(CHR ''b'', 1)])]
      (last_n 1 (pad 1 @ ''ab'')) = None"
    by code_simp
  have "(1::nat) \<le> 1" "(2::nat) < 5" by simp_all
  from generate_unknown_history_raises [OF this g m] g m show ?thesis by simp
qed

section \<open>The perplexity scan\<close>

lemma model_pos_entry:
  assumes "model_pos lm" and "map_of lm h = Some d" and "map_of d c = Some p"
  shows "0 < p"
proof -
  from assms(2) have "(h, d) \<in> set lm" by (rule map_of_SomeD)
  with assms(1) have "list_all (\<lambda>cp. 0 < snd cp) d"
    by (auto simp: model_pos_def list_all_iff)
  moreover from assms(3) have "(c, p) \<in> set d" by (rule map_of_SomeD)
  ultimately show ?thesis by (auto simp: list_all_iff)
qed

lemma model_pos_total:
  assumes "model_pos lm" and "map_of lm h = Some d"
  shows "0 \<le> sum_list (map snd d)"
proof -
  from assms(2) have "(h, d) \<in> set lm" by (rule map_of_SomeD)
  with assms(1) have "\<forall>cp \<in> set d. 0 < snd cp"
    by (auto simp: model_pos_def list_all_iff)
  then show ?thesis by (intro sum_list_nonneg) auto
qed

lemma scan_step_pos:
  assumes "model_pos lm"
  shows "scan_step lm S n i (ls, unk) =
     Inr (ls + known_log lm S n i,
          if unk_pos lm S n i then dict_upd (take n (drop i S)) Suc 0 unk else unk)"
proof (cases "map_of lm (take n (drop i S))")
  case None
  then show ?thesis
    by (simp add: scan_step_def known_log_def unk_pos_def entry_def)
next
  case (Some d)
  show ?thesis
  proof (cases "map_of d (S ! (i + n))")
    case None
    with Some show ?thesis
      by (simp add: scan_step_def known_log_def unk_pos_def entry_def)
  next
    case (Some p)
    have "0 < p"
      by (rule model_pos_entry [OF assms \<open>map_of lm (take n (drop i S)) = Some d\<close> Some])
    with Some \<open>map_of lm (take n (drop i S)) = Some d\<close> show ?thesis
      by (simp add: scan_step_def known_log_def unk_pos_def entry_def math_log_def)
  qed
qed

lemma scan_loop_pos:
  assumes "model_pos lm"
  shows "\<exists>unk'. scan_loop lm S n js (ls, unk) = Inr (ls + (\<Sum>i\<leftarrow>js. known_log lm S n i), unk') \<and>
           (distinct (map fst unk) \<longrightarrow> distinct (map fst unk')) \<and>
           set (map fst unk') =
             set (map fst unk) \<union> set (map (\<lambda>i. take n (drop i S)) (filter (unk_pos lm S n) js))"
proof (induction js arbitrary: ls unk)
  case Nil
  show ?case by simp
next
  case (Cons j js)
  let ?unk1 = "if unk_pos lm S n j then dict_upd (take n (drop j S)) Suc 0 unk else unk"
  from Cons.IH [of "ls + known_log lm S n j" ?unk1] obtain unk' where
    u: "scan_loop lm S n js (ls + known_log lm S n j, ?unk1) =
          Inr (ls + known_log lm S n j + (\<Sum>i\<leftarrow>js. known_log lm S n i), unk')"
       "distinct (map fst ?unk1) \<longrightarrow> distinct (map fst unk')"
       "set (map fst unk') =
          set (map fst ?unk1) \<union> set (map (\<lambda>i. take n (drop i S)) (filter (unk_pos lm S n) js))"
    by blast
  have s: "scan_loop lm S n (j # js) (ls, unk) =
      Inr (ls + (\<Sum>i\<leftarrow>j # js. known_log lm S n i), unk')"
    using u(1) by (simp add: scan_step_pos [OF assms] add.assoc)
  have d: "distinct (map fst unk) \<longrightarrow> distinct (map fst unk')"
    using u(2) by (simp add: distinct_dict_upd)
  have k: "set (map fst unk') =
      set (map fst unk) \<union> set (map (\<lambda>i. take n (drop i S)) (filter (unk_pos lm S n) (j # js)))"
    using u(3) keys_dict_upd [of "take n (drop j S)" Suc 0 unk] by auto
  from s d k show ?case by blast
qed

lemma unk_loop_pos:
  assumes "model_pos lm" and "\<forall>h \<in> set hs. map_of lm h \<noteq> None"
  shows "unk_loop lm hs ls = Inr (ls + (\<Sum>h\<leftarrow>hs. ln (1 / (dict_total lm h + 1))))"
  using assms(2)
proof (induction hs arbitrary: ls)
  case Nil
  show ?case by simp
next
  case (Cons h hs)
  from Cons.prems obtain d where d: "map_of lm h = Some d" by auto
  with assms(1) have "0 \<le> sum_list (map snd d)" by (rule model_pos_total)
  then have p: "0 < sum_list (map snd d) + 1" by simp
  then have "math_log (1 / (sum_list (map snd d) + 1)) = Inr (ln (1 / (sum_list (map snd d) + 1)))"
    by (simp add: math_log_def not_le)
  with p d have "unk_loop lm (h # hs) ls = unk_loop lm hs (ls + ln (1 / (dict_total lm h + 1)))"
    by (simp add: dict_total_def Let_def)
  also have "\<dots> = Inr (ls + ln (1 / (dict_total lm h + 1)) + (\<Sum>h\<leftarrow>hs. ln (1 / (dict_total lm h + 1))))"
    using Cons.prems by (intro Cons.IH) simp
  finally show ?case by (simp add: add.assoc)
qed

lemma perplexity_logsum_pos:
  assumes "model_pos lm"
  shows "perplexity_logsum lm test_data n = Inr (spec_log_sum lm (padded test_data n) n)"
proof -
  let ?S = "padded test_data n"
  from scan_loop_pos [OF assms, of ?S n "[0..<length ?S - n]" 0 "[]"] obtain unk where
    u: "scan_loop lm ?S n [0..<length ?S - n] (0, []) =
          Inr ((\<Sum>i\<leftarrow>[0..<length ?S - n]. known_log lm ?S n i), unk)"
       "distinct (map fst unk)"
       "set (map fst unk) = unk_histories lm ?S n"
    by (auto simp: unk_histories_def)
  have "\<forall>h \<in> set (map fst unk). map_of lm h \<noteq> None"
    unfolding u(3) by (auto simp: unk_histories_def unk_pos_def)
  from unk_loop_pos [OF assms this]
  have "unk_loop lm (map fst unk) (\<Sum>i\<leftarrow>[0..<length ?S - n]. known_log lm ?S n i) =
      Inr ((\<Sum>i\<leftarrow>[0..<length ?S - n]. known_log lm ?S n i) +
           (\<Sum>h\<leftarrow>map fst unk. ln (1 / (dict_total lm h + 1))))" .
  moreover have "(\<Sum>h\<leftarrow>map fst unk. ln (1 / (dict_total lm h + 1))) =
      (\<Sum>h\<in>unk_histories lm ?S n. ln (1 / (dict_total lm h + 1)))"
    using u(2) by (simp only: u(3) [symmetric] sum.distinct_set_conv_list)
  ultimately show ?thesis
    using u(1) by (simp add: perplexity_logsum_def spec_log_sum_def Let_def)
qed

section \<open>Trained models under the perplexity scan\<close>

lemma trained_model_pos: "model_pos (trained texts m)"
proof -
  let ?cs = "count_loop (padded texts m) m"
  have "0 < snd cp" if e: "e \<in> set (trained texts m)" and cp: "cp \<in> set (snd e)" for e cp
  proof -
    from e obtain h d0 where hd: "(h, d0) \<in> set ?cs" "e = (h, norm_dist d0)"
      by (auto simp: trained_def)
    from hd(1) have pos: "0 < sum_list (map snd d0)"
      using counts_ok_sum_pos [OF count_loop_ok, of "(h, d0)"] by simp
    from hd(1) have m: "map_of ?cs h = Some d0"
      using count_loop_ok [of "padded texts m" m] by (simp add: counts_ok_def)
    from cp hd(2) obtain c k where ck: "(c, k) \<in> set d0"
      "cp = (c, real k / real (sum_list (map snd d0)))"
      by (auto simp: norm_dist_def)
    from m have "distinct (map fst d0)"
      using count_loop_ok [of "padded texts m" m] unfolding counts_ok_def by blast
    with ck(1) have "map_of d0 c = Some k" by simp
    with m have "0 < k"
      using count_loop_ok [of "padded texts m" m] unfolding counts_ok_def by blast
    with pos show ?thesis
      unfolding ck(2) snd_conv by (simp only: divide_pos_pos of_nat_0_less_iff)
  qed
  then show ?thesis by (auto simp: model_pos_def list_all_iff)
qed

lemma trained_dict_total:
  assumes "map_of (trained texts m) h \<noteq> None"
  shows "dict_total (trained texts m) h = 1"
proof -
  from assms obtain d0 where d0: "map_of (count_loop (padded texts m) m) h = Some d0"
    by (auto simp: map_of_trained)
  then have "(h, d0) \<in> set (count_loop (padded texts m) m)" by (rule map_of_SomeD)
  then have "0 < sum_list (map snd d0)"
    using counts_ok_sum_pos [OF count_loop_ok, of "(h, d0)"] by simp
  then have "sum_list (map snd (norm_dist d0)) = 1" by (rule sum_norm_dist)
  with d0 show ?thesis by (simp add: dict_total_def map_of_trained)
qed

lemma occurrences_le_total: "occurrences S n h c \<le> history_total S n h"
proof -
  have "length (filter (\<lambda>i. P i \<and> Q i) js) \<le> length (filter P js)" for P Q :: "nat \<Rightarrow> bool" and js
    by (induction js) auto
  then show ?thesis by (simp add: occurrences_def history_total_def)
qed

lemma trained_known_log_nonpos: "known_log (trained texts m) S n i \<le> 0"
proof (cases "entry (trained texts m) (take n (drop i S)) (S ! (i + n))")
  case None
  then show ?thesis by (simp add: known_log_def)
next
  case (Some p)
  let ?o = "occurrences (padded texts m) m (take n (drop i S)) (S ! (i + n))"
  let ?t = "history_total (padded texts m) m (take n (drop i S))"
  from Some have p: "0 < ?o" "p = real ?o / real ?t"
    by (auto simp: trained_entry split: if_splits)
  have "?o \<le> ?t" by (rule occurrences_le_total)
  with p have "0 < p" "p \<le> 1" by (simp_all add: divide_le_eq_1)
  then have "ln p \<le> 0" by simp
  with Some show ?thesis by (simp add: known_log_def)
qed

lemma trained_unk_term:
  assumes "h \<in> unk_histories (trained texts m) S n"
  shows "ln (1 / (dict_total (trained texts m) h + 1)) = ln (1 / 2)"
proof -
  from assms have "map_of (trained texts m) h \<noteq> None"
    by (auto simp: unk_histories_def unk_pos_def)
  then have "dict_total (trained texts m) h = 1" by (rule trained_dict_total)
  then show ?thesis by simp
qed

lemma trained_spec_log_sum:
  "spec_log_sum (trained texts m) S n =
     (\<Sum>i\<leftarrow>[0..<length S - n]. known_log (trained texts m) S n i) +
     real (card (unk_histories (trained texts m) S n)) * ln (1 / 2)"
proof -
  have "(\<Sum>h\<in>unk_histories (trained texts m) S n. ln (1 / (dict_total (trained texts m) h + 1))) =
      (\<Sum>h\<in>unk_histories (trained texts m) S n. ln (1 / 2))"
    by (rule sum.cong) (simp_all only: trained_unk_term)
  then show ?thesis by (simp add: spec_log_sum_def)
qed

lemma trained_spec_log_sum_nonpos: "spec_log_sum (trained texts m) S n \<le> 0"
proof -
  have "(\<Sum>i\<leftarrow>[0..<length S - n]. known_log (trained texts m) S n i) \<le> 0"
    by (rule sum_list_nonpos) (auto simp: trained_known_log_nonpos)
  moreover have "real (card (unk_histories (trained texts m) S n)) * ln (1 / 2) \<le> 0"
    by (rule mult_nonneg_nonpos) simp_all
  ultimately show ?thesis by (simp only: trained_spec_log_sum)
qed

lemma length_padded: "length (padded texts n) = (\<Sum>t\<leftarrow>texts. n + length t)"
  by (induction texts) (simp_all add: padded_Nil padded_Cons length_pad)

lemma padded_not_Nil: "1 \<le> n \<Longrightarrow> texts \<noteq> [] \<Longrightarrow> padded texts n \<noteq> []"
  by (cases texts) (auto simp: padded_Cons pad_def)

lemma perplexity_pos:
  assumes "model_pos lm" and "1 \<le> n" and "test_data \<noteq> []"
  shows "perplexity lm test_data n =
     Inr (exp (- spec_log_sum lm (padded test_data n) n / real (length (padded test_data n))))"
proof -
  from assms(2,3) have "padded test_data n \<noteq> []" by (rule padded_not_Nil)
  then show ?thesis
    by (simp add: perplexity_def perplexity_logsum_pos [OF assms(1)])
qed

section \<open>Perplexity: formula, unknown outcomes, lower bound\<close>

text \<open>
  Claim C6. For every well-formed model (every stored probability positive), order
  \<open>n \<ge> 1\<close> and non-empty test corpus, \<open>perplexity\<close> returns
  \<open>exp (- log_sum / stream_length)\<close>, where \<open>stream_length\<close> is the length of the whole
  padded test stream, \<open>n\<close> pad characters per document included; a scanned position
  whose history is absent from the model adds nothing to the log-sum (neither a
  logarithm nor an unknown outcome), and the denominator does not depend on the model.
\<close>

theorem perplexity_is_exp_of_mean_log_sum:
  assumes "model_pos lm" and "1 \<le> n" and "test_data \<noteq> []"
  shows "perplexity lm test_data n =
           Inr (exp (- spec_log_sum lm (padded test_data n) n
                     / real (length (padded test_data n)))) \<and>
         length (padded test_data n) = (\<Sum>t\<leftarrow>test_data. n + length t) \<and>
         (\<forall>i. map_of lm (take n (drop i (padded test_data n))) = None \<longrightarrow>
              known_log lm (padded test_data n) n i = 0 \<and>
              \<not> unk_pos lm (padded test_data n) n i)"
proof -
  have "known_log lm S n i = 0 \<and> \<not> unk_pos lm S n i"
    if "map_of lm (take n (drop i S)) = None" for S i
    using that by (simp add: known_log_def unk_pos_def entry_def)
  then show ?thesis
    using perplexity_pos [OF assms] length_padded [of test_data n] by blast
qed

theorem perplexity_is_exp_of_mean_log_sum_witness:
  "model_pos [(''~'', [(CHR ''a'', 1)])] \<and> (1::nat) \<le> 1 \<and> [''ab''] \<noteq> [] \<and>
   perplexity [(''~'', [(CHR ''a'', 1)])] [''ab''] 1 =
     Inr (exp (- spec_log_sum [(''~'', [(CHR ''a'', 1)])] (padded [''ab''] 1) 1
               / real (length (padded [''ab''] 1)))) \<and>
   length (padded [''ab''] 1) = 3 \<and>
   map_of [(''~'', [(CHR ''a'', 1 :: real)])] (take 1 (drop 1 (padded [''ab''] 1))) = None \<and>
   known_log [(''~'', [(CHR ''a'', 1)])] (padded [''ab''] 1) 1 1 = 0"
proof -
  have m: "model_pos [(''~'', [(CHR ''a'', 1)])]" by (simp add: model_pos_def)
  have n: "(1::nat) \<le> 1" by simp
  have t: "[''ab''] \<noteq> []" by simp
  have a: "map_of [(''~'', [(CHR ''a'', 1 :: real)])] (take 1 (drop 1 (padded [''ab''] 1))) = None"
    by (simp add: padded_def pad_def)
  note r = perplexity_is_exp_of_mean_log_sum [OF m n t]
  from r have "known_log [(''~'', [(CHR ''a'', 1)])] (padded [''ab''] 1) 1 1 = 0"
    using a by blast
  moreover from r have "length (padded [''ab''] 1) = 3" by simp
  moreover from r have "perplexity [(''~'', [(CHR ''a'', 1)])] [''ab''] 1 =
     Inr (exp (- spec_log_sum [(''~'', [(CHR ''a'', 1)])] (padded [''ab''] 1) 1
               / real (length (padded [''ab''] 1))))"
    by blast
  ultimately show ?thesis using m n t a by blast
qed

text \<open>
  Claim C2 as stated fails: after training on \<open>aaa\<close> at order 1 the history \<open>a\<close> has the
  count 2; scoring \<open>ab\<close> meets one unknown outcome for it and the log-sum is \<open>ln (1 / 2)\<close>,
  not \<open>ln (1 / (2 + 1))\<close>.
\<close>

theorem unknown_outcome_term_ignores_counts:
  "train_char_lm [''aaa''] 1 = Inr [(''~'', [(CHR ''a'', 1)]), (''a'', [(CHR ''a'', 1)])] \<and>
   history_total (padded [''aaa''] 1) 1 ''a'' = 2 \<and>
   unk_histories [(''~'', [(CHR ''a'', 1)]), (''a'', [(CHR ''a'', 1)])] (padded [''ab''] 1) 1 = {''a''} \<and>
   perplexity_logsum [(''~'', [(CHR ''a'', 1)]), (''a'', [(CHR ''a'', 1)])] [''ab''] 1 = Inr (ln (1 / 2)) \<and>
   count_log_sum (padded [''aaa''] 1) 1 [(''~'', [(CHR ''a'', 1)]), (''a'', [(CHR ''a'', 1)])]
     (padded [''ab''] 1) 1 = ln (1 / 3) \<and>
   perplexity_logsum [(''~'', [(CHR ''a'', 1)]), (''a'', [(CHR ''a'', 1)])] [''ab''] 1 \<noteq>
     Inr (count_log_sum (padded [''aaa''] 1) 1 [(''~'', [(CHR ''a'', 1)]), (''a'', [(CHR ''a'', 1)])]
            (padded [''ab''] 1) 1)"
proof -
  have t: "train_char_lm [''aaa''] 1 = Inr [(''~'', [(CHR ''a'', 1)]), (''a'', [(CHR ''a'', 1)])]"
    by code_simp
  have h: "history_total (padded [''aaa''] 1) 1 ''a'' = 2"
    by code_simp
  have u: "unk_histories [(''~'', [(CHR ''a'', 1)]), (''a'', [(CHR ''a'', 1)])] (padded [''ab''] 1) 1 = {''a''}"
    by (simp add: unk_histories_def unk_pos_def entry_def padded_def pad_def)
  have l: "perplexity_logsum [(''~'', [(CHR ''a'', 1)]), (''a'', [(CHR ''a'', 1)])] [''ab''] 1 = Inr (ln (1 / 2))"
    by (simp add: perplexity_logsum_def padded_def pad_def scan_step_def math_log_def)
  have c: "count_log_sum (padded [''aaa''] 1) 1 [(''~'', [(CHR ''a'', 1)]), (''a'', [(CHR ''a'', 1)])]
     (padded [''ab''] 1) 1 = ln (1 / 3)"
    unfolding count_log_sum_def u using h
    by (simp add: known_log_def entry_def padded_def pad_def)
  have "ln (1 / 2 :: real) \<noteq> ln (1 / 3)" by simp
  with t h u l c show ?thesis by simp
qed

text \<open>
  Claim C2, as the code has it. \<open>perplexity\<close> receives the normalised model, which holds
  no counts: for every history with one or more unknown outcomes it adds one term
  \<open>ln (1 / (s + 1))\<close>, with \<open>s\<close> the sum of the values of that history's distribution,
  once per history however many unknown outcomes the history had. For a trained model
  \<open>s\<close> is 1 and the term is \<open>ln (1 / 2)\<close>, whatever the count of the history in training.
\<close>

theorem unknown_outcome_term_of_model:
  assumes "train_char_lm texts m = Inr lm"
  shows "perplexity_logsum lm test_data n = Inr (spec_log_sum lm (padded test_data n) n) \<and>
         spec_log_sum lm (padded test_data n) n =
           (\<Sum>i\<leftarrow>[0..<length (padded test_data n) - n]. known_log lm (padded test_data n) n i) +
           real (card (unk_histories lm (padded test_data n) n)) * ln (1 / 2)"
proof -
  from assms have lm: "lm = trained texts m"
    by (simp add: train_char_lm_trained)
  show ?thesis
    unfolding lm using perplexity_logsum_pos [OF trained_model_pos] trained_spec_log_sum
    by blast
qed

theorem unknown_outcome_term_of_model_witness:
  "train_char_lm [''aaa''] 1 = Inr [(''~'', [(CHR ''a'', 1)]), (''a'', [(CHR ''a'', 1)])] \<and>
   perplexity_logsum [(''~'', [(CHR ''a'', 1)]), (''a'', [(CHR ''a'', 1)])] [''abac''] 1 =
     Inr (spec_log_sum [(''~'', [(CHR ''a'', 1)]), (''a'', [(CHR ''a'', 1)])] (padded [''abac''] 1) 1) \<and>
   spec_log_sum [(''~'', [(CHR ''a'', 1)]), (''a'', [(CHR ''a'', 1)])] (padded [''abac''] 1) 1 =
     ln (1 / 2)"
proof -
  have t: "train_char_lm [''aaa''] 1 = Inr [(''~'', [(CHR ''a'', 1)]), (''a'', [(CHR ''a'', 1)])]"
    by code_simp
  have u: "unk_histories [(''~'', [(CHR ''a'', 1)]), (''a'', [(CHR ''a'', 1)])] (padded [''abac''] 1) 1 = {''a''}"
    by (simp add: unk_histories_def unk_pos_def entry_def padded_def pad_def)
  have k: "(\<Sum>i\<leftarrow>[0..<length (padded [''abac''] 1) - 1].
      known_log [(''~'', [(CHR ''a'', 1)]), (''a'', [(CHR ''a'', 1)])] (padded [''abac''] 1) 1 i) = 0"
    by (simp add: known_log_def entry_def padded_def pad_def)
  note r = unknown_outcome_term_of_model [OF t, of "[''abac'']" 1]
  from r have a: "perplexity_logsum [(''~'', [(CHR ''a'', 1)]), (''a'', [(CHR ''a'', 1)])] [''abac''] 1 =
     Inr (spec_log_sum [(''~'', [(CHR ''a'', 1)]), (''a'', [(CHR ''a'', 1)])] (padded [''abac''] 1) 1)"
    by blast
  from r have "spec_log_sum [(''~'', [(CHR ''a'', 1)]), (''a'', [(CHR ''a'', 1)])] (padded [''abac''] 1) 1 =
      (\<Sum>i\<leftarrow>[0..<length (padded [''abac''] 1) - 1].
        known_log [(''~'', [(CHR ''a'', 1)]), (''a'', [(CHR ''a'', 1)])] (padded [''abac''] 1) 1 i) +
      real (card (unk_histories [(''~'', [(CHR ''a'', 1)]), (''a'', [(CHR ''a'', 1)])]
        (padded [''abac''] 1) 1)) * ln (1 / 2)"
    by blast
  then have "spec_log_sum [(''~'', [(CHR ''a'', 1)]), (''a'', [(CHR ''a'', 1)])] (padded [''abac''] 1) 1 =
      ln (1 / 2)"
    unfolding u k by simp
  with a t show ?thesis by blast
qed

text \<open>
  Claim C9. For every trained model, order \<open>n \<ge> 1\<close> and non-empty test corpus,
  \<open>perplexity\<close> returns a value, and the value is at least 1.
\<close>

theorem perplexity_at_least_one:
  assumes "train_char_lm texts m = Inr lm" and "1 \<le> n" and "test_data \<noteq> []"
  shows "\<exists>v. perplexity lm test_data n = Inr v \<and> 1 \<le> v"
proof -
  from assms(1) have lm: "lm = trained texts m"
    by (simp add: train_char_lm_trained)
  let ?S = "padded test_data n"
  have "spec_log_sum lm ?S n \<le> 0"
    unfolding lm by (rule trained_spec_log_sum_nonpos)
  then have "0 \<le> - spec_log_sum lm ?S n" by simp
  then have "0 \<le> - spec_log_sum lm ?S n / real (length ?S)"
    by (rule divide_nonneg_nonneg) simp
  then have "1 \<le> exp (- spec_log_sum lm ?S n / real (length ?S))"
    by (simp only: one_le_exp_iff)
  moreover have "perplexity lm test_data n = Inr (exp (- spec_log_sum lm ?S n / real (length ?S)))"
    unfolding lm by (rule perplexity_pos [OF trained_model_pos assms(2,3)])
  ultimately show ?thesis by blast
qed

theorem perplexity_at_least_one_witness:
  "train_char_lm [''aaa''] 1 = Inr [(''~'', [(CHR ''a'', 1)]), (''a'', [(CHR ''a'', 1)])] \<and>
   (\<exists>v. perplexity [(''~'', [(CHR ''a'', 1)]), (''a'', [(CHR ''a'', 1)])] [''ab''] 1 = Inr v \<and> 1 \<le> v)"
proof -
  have t: "train_char_lm [''aaa''] 1 = Inr [(''~'', [(CHR ''a'', 1)]), (''a'', [(CHR ''a'', 1)])]"
    by code_simp
  have "(1::nat) \<le> 1" "[''ab''] \<noteq> []" by simp_all
  from perplexity_at_least_one [OF t this] t show ?thesis by blast
qed

section \<open>The golden vectors\<close>

lemma golden_train: "train_char_lm [''The wheel has come full circle.''] 2 = Inr golden_lm"
  by code_simp

lemma golden_positions:
  "[0..<31] = [0, 1, 2, 3, 4, 5, 6, 7, 8, 9, 10, 11, 12, 13, 14, 15, 16, 17, 18, 19, 20,
               21, 22, 23, 24, 25, 26, 27, 28, 29, 30]"
  by code_simp

lemma golden_same:
  "perplexity golden_lm [''The wheel has come full circle.''] 2 = Inr (exp (8 * ln 2 / 33))"
proof -
  have p: "padded [''The wheel has come full circle.''] 2 = ''~~The wheel has come full circle.''"
    by code_simp
  show ?thesis
    unfolding perplexity_def perplexity_logsum_def p Let_def
    by (simp add: golden_positions scan_step_def math_log_def golden_lm_def ln_div)
qed

lemma golden_corrupted:
  "perplexity golden_lm [''Tha weeel cos tome hell circle.''] 2 = Inr (exp (14 * ln 2 / 33))"
proof -
  have p: "padded [''Tha weeel cos tome hell circle.''] 2 = ''~~Tha weeel cos tome hell circle.''"
    by code_simp
  show ?thesis
    unfolding perplexity_def perplexity_logsum_def p Let_def
    by (simp add: golden_positions scan_step_def math_log_def golden_lm_def ln_div)
qed

text \<open>Bounds on \<open>2\<close> to the power \<open>k / 33\<close> from bounds on 33rd powers.\<close>

lemma exp_ln2_root:
  fixes a b :: real
  assumes "a ^ 33 \<le> 2 ^ k" and "2 ^ k \<le> b ^ 33" and "0 \<le> b"
  shows "a \<le> exp (real k * ln 2 / 33) \<and> exp (real k * ln 2 / 33) \<le> b"
proof -
  let ?y = "exp (real k * ln 2 / 33)"
  have "?y ^ 33 = exp (real 33 * (real k * ln 2 / 33))"
    by (simp only: exp_of_nat_mult)
  also have "\<dots> = exp (real k * ln 2)" by simp
  also have "\<dots> = exp (ln 2) ^ k" by (simp only: exp_of_nat_mult)
  also have "\<dots> = 2 ^ k" by simp
  finally have y: "?y ^ Suc 32 = 2 ^ k" by simp
  have "a ^ Suc 32 \<le> ?y ^ Suc 32" using assms(1) y by simp
  then have "a \<le> ?y" by (rule power_le_imp_le_base) simp
  moreover have "?y ^ Suc 32 \<le> b ^ Suc 32" using assms(2) y by simp
  then have "?y \<le> b" using assms(3) by (rule power_le_imp_le_base)
  ultimately show ?thesis by blast
qed

lemma golden_same_bounds:
  "(1182978 / 10 ^ 6 :: real) \<le> exp (8 * ln 2 / 33) \<and>
   exp (8 * ln 2 / 33) \<le> (1182979 / 10 ^ 6 :: real)"
proof -
  have l: "(1182978 / 10 ^ 6 :: real) ^ 33 \<le> 2 ^ 8"
    by (simp add: power_divide divide_le_eq)
  have u: "(2::real) ^ 8 \<le> (1182979 / 10 ^ 6) ^ 33"
    by (simp add: power_divide le_divide_eq)
  have "(0::real) \<le> 1182979 / 10 ^ 6" by simp
  from exp_ln2_root [OF l u this] show ?thesis
    by (simp only: of_nat_numeral)
qed

lemma golden_corrupted_bounds:
  "(1341867 / 10 ^ 6 :: real) \<le> exp (14 * ln 2 / 33) \<and>
   exp (14 * ln 2 / 33) \<le> (1341868 / 10 ^ 6 :: real)"
proof -
  have l: "(1341867 / 10 ^ 6 :: real) ^ 33 \<le> 2 ^ 14"
    by (simp add: power_divide divide_le_eq)
  have u: "(2::real) ^ 14 \<le> (1341868 / 10 ^ 6) ^ 33"
    by (simp add: power_divide le_divide_eq)
  have "(0::real) \<le> 1341868 / 10 ^ 6" by simp
  from exp_ln2_root [OF l u this] show ?thesis
    by (simp only: of_nat_numeral)
qed

lemma within_tolerance:
  fixes y :: real
  assumes "l \<le> y \<and> y \<le> u" and "g - e \<le> l" and "u \<le> g + e"
  shows "\<bar>y - g\<bar> \<le> e"
  using assms by (simp add: abs_le_iff)

text \<open>
  Claim C8. Training on the single document \<open>The wheel has come full circle.\<close> with
  order 2 and scoring the same string gives a perplexity within \<open>1e-6\<close> of
  \<open>1.1829788187396464\<close>; scoring \<open>Tha weeel cos tome hell circle.\<close> against the same
  model gives a perplexity within \<open>1e-6\<close> of \<open>1.3418676875883773\<close>. The two values are
  \<open>2\<close> to the powers \<open>8 / 33\<close> and \<open>14 / 33\<close>.
\<close>

theorem golden_vectors:
  "\<exists>lm v w.
     train_char_lm [''The wheel has come full circle.''] 2 = Inr lm \<and>
     perplexity lm [''The wheel has come full circle.''] 2 = Inr v \<and>
     \<bar>v - 11829788187396464 / 10 ^ 16\<bar> \<le> 1 / 10 ^ 6 \<and>
     perplexity lm [''Tha weeel cos tome hell circle.''] 2 = Inr w \<and>
     \<bar>w - 13418676875883773 / 10 ^ 16\<bar> \<le> 1 / 10 ^ 6"
proof -
  have "\<bar>exp (8 * ln 2 / 33) - 11829788187396464 / 10 ^ 16\<bar> \<le> (1 / 10 ^ 6 :: real)"
    by (rule within_tolerance [OF golden_same_bounds]) simp_all
  moreover have "\<bar>exp (14 * ln 2 / 33) - 13418676875883773 / 10 ^ 16\<bar> \<le> (1 / 10 ^ 6 :: real)"
    by (rule within_tolerance [OF golden_corrupted_bounds]) simp_all
  ultimately show ?thesis
    using golden_train golden_same golden_corrupted by blast
qed

end
